theory Spec2Isabelle
  imports Main
begin

section \<open>The external stores of \<open>01-basic-components.tsx\<close>\<close>

text \<open>
  The file defines two stores that the claims are about, \<open>createCounterStore\<close> and
  \<open>createOnlineStore\<close>. Both keep a value and a JavaScript \<open>Set\<close> of callbacks, and
  notify with \<open>listeners.forEach\<close>. The stores are closures over mutable variables;
  here each operation takes the store's state and returns the new one.
\<close>

subsection \<open>Callbacks\<close>

text \<open>
  A callback is a JavaScript function object; the \<open>Set\<close> compares callbacks by identity,
  so a callback is modelled by its identity, a natural number. What a callback does
  when it is called is given by a \<open>program\<close>: the list of effects of its body, run in order.
  The effects are those the specification talks about: subscribing a callback to the
  store that is notifying, calling the unsubscribe handle of a callback, and raising an
  exception. The callback with the empty body only returns.
\<close>

type_synonym callback = nat

datatype effect = Subscribe callback | Unsubscribe callback | Throw

type_synonym program = "callback \<Rightarrow> effect list"

text \<open>A call either returns or raises; \<open>Raised l\<close> is the exception of callback \<open>l\<close>.\<close>

datatype completion = Returned | Raised callback

subsection \<open>The JavaScript \<open>Set\<close>\<close>

text \<open>
  ECMAScript keeps the elements of a \<open>Set\<close> in the list \<open>[[SetData]]\<close>, in insertion order.
  \<open>add\<close> appends a value that is not yet an element and does nothing otherwise;
  \<open>delete\<close> replaces the element by the marker \<open>empty\<close> (here \<open>None\<close>) and leaves the
  positions of the others as they are.
\<close>

type_synonym setdata = "callback option list"

definition set_add :: "callback \<Rightarrow> setdata \<Rightarrow> setdata" where
  "set_add l es = (if Some l \<in> set es then es else es @ [Some l])"

definition set_delete :: "callback \<Rightarrow> setdata \<Rightarrow> setdata" where
  "set_delete l es = map (\<lambda>e. if e = Some l then None else e) es"

text \<open>The elements of the set, in insertion order.\<close>

fun live :: "setdata \<Rightarrow> callback list" where
  "live [] = []"
| "live (None # es) = live es"
| "live (Some l # es) = l # live es"

subsection \<open>The listener set and the trace of calls\<close>

text \<open>
  \<open>listeners\<close> is the \<open>Set\<close> of the store. \<open>calls\<close> is not a variable of the source: it
  records, in order, every call of a callback, so that "the call count of L" is
  \<open>count_list (calls s) L\<close>.
\<close>

record notifier =
  listeners :: setdata
  calls :: "callback list"

text \<open>
  \<open>subscribe\<close> of the counter store is \<open>listeners.add(listener)\<close>, and the handle it returns
  is \<open>() => listeners.delete(listener)\<close>: the handle is determined by the callback.
\<close>

definition subscribe :: "callback \<Rightarrow> 'a notifier_scheme \<Rightarrow> 'a notifier_scheme" where
  "subscribe l s = s\<lparr>listeners := set_add l (listeners s)\<rparr>"

definition unsubscribe :: "callback \<Rightarrow> 'a notifier_scheme \<Rightarrow> 'a notifier_scheme" where
  "unsubscribe l s = s\<lparr>listeners := set_delete l (listeners s)\<rparr>"

text \<open>The body of callback \<open>l\<close>: an exception ends the body where it is raised.\<close>

fun exec :: "callback \<Rightarrow> effect list \<Rightarrow> 'a notifier_scheme \<Rightarrow> completion \<times> 'a notifier_scheme" where
  "exec l [] s = (Returned, s)"
| "exec l (Subscribe x # es) s = exec l es (subscribe x s)"
| "exec l (Unsubscribe x # es) s = exec l es (unsubscribe x s)"
| "exec l (Throw # es) s = (Raised l, s)"

definition invoke :: "program \<Rightarrow> callback \<Rightarrow> 'a notifier_scheme \<Rightarrow> completion \<times> 'a notifier_scheme" where
  "invoke p l s = exec l (p l) (s\<lparr>calls := calls s @ [l]\<rparr>)"

text \<open>
  \<open>listeners.forEach((listener) => listener())\<close>. \<open>Set.prototype.forEach\<close> walks
  \<open>[[SetData]]\<close> by index and reads the length again after every call, so it visits
  elements appended during the walk and skips elements deleted before it reaches
  them; an exception of the callback ends the walk and propagates. A callback that
  deletes and adds again keeps the walk going for ever, so the walk takes fuel, one unit
  for each test of the loop condition: \<open>None\<close> is a walk that has not ended within the fuel.
\<close>

fun forEach :: "program \<Rightarrow> nat \<Rightarrow> nat \<Rightarrow> 'a notifier_scheme \<Rightarrow> (completion \<times> 'a notifier_scheme) option" where
  "forEach p 0 i s = None"
| "forEach p (Suc n) i s =
     (if i < length (listeners s) then
        (case listeners s ! i of
           None \<Rightarrow> forEach p n (Suc i) s
         | Some l \<Rightarrow>
             (case invoke p l s of
                (Raised x, s') \<Rightarrow> Some (Raised x, s')
              | (Returned, s') \<Rightarrow> forEach p n (Suc i) s'))
      else Some (Returned, s))"

subsection \<open>The counter store\<close>

text \<open>
  \<open>count\<close> is a JavaScript Number that starts at 0 and changes by \<open>count++\<close>, \<open>count--\<close>
  and \<open>count = 0\<close> only, so it is always an integer between \<open>-2^53\<close> and \<open>2^53\<close>. On these
  the double-precision sum is exact, except that \<open>2^53 + 1\<close> rounds back to \<open>2^53\<close> and
  \<open>-2^53 - 1\<close> to \<open>-2^53\<close>.
\<close>

definition js_inc :: "int \<Rightarrow> int" where
  "js_inc n = (if n = 2 ^ 53 then n else n + 1)"

definition js_dec :: "int \<Rightarrow> int" where
  "js_dec n = (if n = - (2 ^ 53) then n else n - 1)"

record counter_store = notifier +
  count :: int

definition createCounterStore :: counter_store where
  "createCounterStore = \<lparr>listeners = [], calls = [], count = 0\<rparr>"

definition notifyListeners :: "program \<Rightarrow> nat \<Rightarrow> counter_store \<Rightarrow> (completion \<times> counter_store) option" where
  "notifyListeners p fuel s = forEach p fuel 0 s"

definition increment :: "program \<Rightarrow> nat \<Rightarrow> counter_store \<Rightarrow> (completion \<times> counter_store) option" where
  "increment p fuel s = notifyListeners p fuel (s\<lparr>count := js_inc (count s)\<rparr>)"

definition decrement :: "program \<Rightarrow> nat \<Rightarrow> counter_store \<Rightarrow> (completion \<times> counter_store) option" where
  "decrement p fuel s = notifyListeners p fuel (s\<lparr>count := js_dec (count s)\<rparr>)"

definition reset :: "program \<Rightarrow> nat \<Rightarrow> counter_store \<Rightarrow> (completion \<times> counter_store) option" where
  "reset p fuel s = notifyListeners p fuel (s\<lparr>count := 0\<rparr>)"

text \<open>\<open>getSnapshot\<close> returns \<open>count\<close>; the state it returns is the state after the call.\<close>

definition getSnapshot :: "counter_store \<Rightarrow> int \<times> counter_store" where
  "getSnapshot s = (count s, s)"

text \<open>
  The calls a client can make on the store, and a sequence of them. A client that
  catches the exception of an update goes on with the store as the update left it.
\<close>

datatype update_op = Increment | Decrement | Reset

datatype request = Update update_op | Sub callback | Unsub callback | GetSnapshot

fun update :: "program \<Rightarrow> nat \<Rightarrow> update_op \<Rightarrow> counter_store \<Rightarrow> (completion \<times> counter_store) option" where
  "update p fuel Increment s = increment p fuel s"
| "update p fuel Decrement s = decrement p fuel s"
| "update p fuel Reset s = reset p fuel s"

fun perform :: "program \<Rightarrow> nat \<Rightarrow> request \<Rightarrow> counter_store \<Rightarrow> (completion \<times> counter_store) option" where
  "perform p fuel (Update u) s = update p fuel u s"
| "perform p fuel (Sub l) s = Some (Returned, subscribe l s)"
| "perform p fuel (Unsub l) s = Some (Returned, unsubscribe l s)"
| "perform p fuel GetSnapshot s = Some (Returned, snd (getSnapshot s))"

fun requests :: "program \<Rightarrow> nat \<Rightarrow> request list \<Rightarrow> counter_store \<Rightarrow> counter_store option" where
  "requests p fuel [] s = Some s"
| "requests p fuel (r # rs) s =
     (case perform p fuel r s of
        None \<Rightarrow> None
      | Some (c, s') \<Rightarrow> requests p fuel rs s')"

text \<open>What an update does to the value, and the updates of a sequence of requests.\<close>

fun mutator :: "update_op \<Rightarrow> int \<Rightarrow> int" where
  "mutator Increment = js_inc"
| "mutator Decrement = js_dec"
| "mutator Reset = (\<lambda>v. 0)"

fun updates :: "request list \<Rightarrow> update_op list" where
  "updates [] = []"
| "updates (Update u # rs) = u # updates rs"
| "updates (r # rs) = updates rs"

subsection \<open>The online-status store\<close>

text \<open>
  \<open>createOnlineStore\<close> keeps \<open>isOnline\<close> and a \<open>Set\<close> of callbacks. Every call of its
  \<open>subscribe\<close> creates two new closures, \<open>handleOnline\<close> and \<open>handleOffline\<close>, and, when
  there is a \<open>window\<close>, registers them for the events \<open>online\<close> and \<open>offline\<close>. The two
  closures of one call are identified by the number of the call (\<open>nextHandler\<close> counts
  the calls); \<open>onlineHandlers\<close> and \<open>offlineHandlers\<close> are the event listener lists of
  \<open>window\<close> for the two events, in registration order. \<open>hasWindow\<close> is
  \<open>typeof window !== "undefined"\<close>.
\<close>

record online_store = notifier +
  isOnline :: bool
  hasWindow :: bool
  onlineHandlers :: "nat list"
  offlineHandlers :: "nat list"
  nextHandler :: nat

text \<open>
  \<open>addEventListener\<close> appends a listener unless the same one is registered already;
  \<open>removeEventListener\<close> removes it.
\<close>

definition addEventListener :: "nat \<Rightarrow> nat list \<Rightarrow> nat list" where
  "addEventListener h hs = (if h \<in> set hs then hs else hs @ [h])"

definition removeEventListener :: "nat \<Rightarrow> nat list \<Rightarrow> nat list" where
  "removeEventListener h hs = remove1 h hs"

text \<open>\<open>navigator_onLine\<close> is the value of \<open>navigator.onLine\<close> when the store is created.\<close>

definition createOnlineStore :: "bool \<Rightarrow> bool \<Rightarrow> online_store" where
  "createOnlineStore window navigator_onLine =
     \<lparr>listeners = [], calls = [],
      isOnline = (if window then navigator_onLine else True),
      hasWindow = window, onlineHandlers = [], offlineHandlers = [], nextHandler = 0\<rparr>"

text \<open>
  The handle that \<open>subscribe\<close> returns deletes the callback and, when the handlers were
  registered, removes the two handlers of its own call.
\<close>

datatype handle = Handle callback "nat option"

definition online_subscribe :: "callback \<Rightarrow> online_store \<Rightarrow> handle \<times> online_store" where
  "online_subscribe l s =
     (let s1 = s\<lparr>listeners := set_add l (listeners s)\<rparr>; h = nextHandler s in
      if hasWindow s then
        (Handle l (Some h),
         s1\<lparr>onlineHandlers := addEventListener h (onlineHandlers s1),
            offlineHandlers := addEventListener h (offlineHandlers s1),
            nextHandler := Suc h\<rparr>)
      else (Handle l None, s1\<lparr>nextHandler := Suc h\<rparr>))"

fun online_unsubscribe :: "handle \<Rightarrow> online_store \<Rightarrow> online_store" where
  "online_unsubscribe (Handle l (Some h)) s =
     s\<lparr>listeners := set_delete l (listeners s),
       onlineHandlers := removeEventListener h (onlineHandlers s),
       offlineHandlers := removeEventListener h (offlineHandlers s)\<rparr>"
| "online_unsubscribe (Handle l None) s = s\<lparr>listeners := set_delete l (listeners s)\<rparr>"

definition online_getSnapshot :: "online_store \<Rightarrow> bool \<times> online_store" where
  "online_getSnapshot s = (isOnline s, s)"

text \<open>
  The callbacks given to this store are taken to be call recorders (the empty body):
  they do not call the store and do not raise.
\<close>

definition recorder :: program where
  "recorder l = []"

definition handleOnline :: "nat \<Rightarrow> online_store \<Rightarrow> (completion \<times> online_store) option" where
  "handleOnline fuel s = forEach recorder fuel 0 (s\<lparr>isOnline := True\<rparr>)"

definition handleOffline :: "nat \<Rightarrow> online_store \<Rightarrow> (completion \<times> online_store) option" where
  "handleOffline fuel s = forEach recorder fuel 0 (s\<lparr>isOnline := False\<rparr>)"

text \<open>
  An event: \<open>window\<close> calls the handlers registered for it, in registration order. All
  handlers of one event have the same body, so the list of handlers decides only how
  often the body runs.
\<close>

fun dispatch :: "(online_store \<Rightarrow> (completion \<times> online_store) option) \<Rightarrow> nat list \<Rightarrow> online_store \<Rightarrow> online_store option" where
  "dispatch body [] s = Some s"
| "dispatch body (h # hs) s =
     (case body s of
        None \<Rightarrow> None
      | Some (c, s') \<Rightarrow> dispatch body hs s')"

datatype event = Online | Offline

fun fire :: "nat \<Rightarrow> event \<Rightarrow> online_store \<Rightarrow> online_store option" where
  "fire fuel Online s = dispatch (handleOnline fuel) (onlineHandlers s) s"
| "fire fuel Offline s = dispatch (handleOffline fuel) (offlineHandlers s) s"

text \<open>
  Subscribing a list of callbacks, one call of \<open>subscribe\<close> each, in order: the handles
  that the calls return, and the store after the last call.
\<close>

fun subscribe_all :: "callback list \<Rightarrow> online_store \<Rightarrow> handle list \<times> online_store" where
  "subscribe_all [] s = ([], s)"
| "subscribe_all (l # ls) s =
     (case online_subscribe l s of
        (h, s') \<Rightarrow> (case subscribe_all ls s' of (hs, s'') \<Rightarrow> (h # hs, s'')))"

text \<open>The event listener list of \<open>window\<close> for an event.\<close>

fun handlers :: "event \<Rightarrow> online_store \<Rightarrow> nat list" where
  "handlers Online s = onlineHandlers s"
| "handlers Offline s = offlineHandlers s"

text \<open>The same updates on the integers, without the rounding of a Number.\<close>

fun arith :: "update_op \<Rightarrow> int \<Rightarrow> int" where
  "arith Increment v = v + 1"
| "arith Decrement v = v - 1"
| "arith Reset v = 0"

text \<open>
  The program in which callback \<open>a\<close> has the body \<open>es\<close> and every other callback is a
  call recorder.
\<close>

definition only :: "callback \<Rightarrow> effect list \<Rightarrow> program" where
  "only a es l = (if l = a then es else [])"

section \<open>Facts about the \<open>Set\<close> and the notification pass\<close>

lemma live_append: "live (xs @ ys) = live xs @ live ys"
  by (induction xs rule: live.induct) simp_all

lemma set_live: "set (live es) = {l. Some l \<in> set es}"
  by (induction es rule: live.induct) auto

lemma live_set_delete: "live (set_delete l es) = removeAll l (live es)"
  by (induction es rule: live.induct) (auto simp add: set_delete_def)

lemma live_set_add: "live (set_add l es) = (if l \<in> set (live es) then live es else live es @ [l])"
  by (simp add: set_add_def live_append set_live)

lemma length_set_delete: "length (set_delete l es) = length es"
  by (simp add: set_delete_def)

lemma length_set_add: "length (set_add l es) \<le> Suc (length es)"
  by (simp add: set_add_def)

lemma set_delete_absent: "Some l \<notin> set es \<Longrightarrow> set_delete l es = es"
  by (induction es) (auto simp add: set_delete_def)

lemma set_delete_removes: "Some l \<notin> set (set_delete l es)"
  by (auto simp add: set_delete_def)

lemma distinct_live_add: "distinct (live es) \<Longrightarrow> distinct (live (set_add l es))"
  by (simp add: live_set_add)

lemma distinct_live_delete: "distinct (live es) \<Longrightarrow> distinct (live (set_delete l es))"
  by (simp add: live_set_delete distinct_removeAll)

lemma exec_count: "count (snd (exec l es s)) = count s"
  by (induction l es s rule: exec.induct) (simp_all add: subscribe_def unsubscribe_def)

lemma invoke_count: "count (snd (invoke p l s)) = count s"
  by (simp add: invoke_def exec_count)

lemma exec_length:
  "\<forall>x. Subscribe x \<notin> set es \<Longrightarrow> length (listeners (snd (exec l es s))) = length (listeners s)"
  by (induction l es s rule: exec.induct) (auto simp add: unsubscribe_def length_set_delete)

lemma invoke_length:
  "\<forall>x. Subscribe x \<notin> set (p l) \<Longrightarrow> length (listeners (snd (invoke p l s))) = length (listeners s)"
  by (simp add: invoke_def exec_length)

lemma forEach_terminates:
  "\<forall>l x. Subscribe x \<notin> set (p l) \<Longrightarrow> length (listeners s) - i < n \<Longrightarrow>
   \<exists>c s'. forEach p n i s = Some (c, s') \<and> length (listeners s') = length (listeners s)"
proof (induction n arbitrary: i s)
  case 0
  then show ?case by simp
next
  case (Suc n)
  show ?case
  proof (cases "i < length (listeners s)")
    case False
    then show ?thesis by simp
  next
    case True
    have fuel: "length (listeners s) - Suc i < n" using Suc.prems(2) True by arith
    show ?thesis
    proof (cases "listeners s ! i")
      case None
      then show ?thesis using True Suc.IH [OF Suc.prems(1) fuel] by simp
    next
      case (Some l)
      obtain r t where inv: "invoke p l s = (r, t)" by (cases "invoke p l s")
      have len: "length (listeners t) = length (listeners s)"
        using invoke_length [of p l s] Suc.prems(1) inv by simp
      show ?thesis
      proof (cases r)
        case Returned
        have "\<exists>c s'. forEach p n (Suc i) t = Some (c, s') \<and> length (listeners s') = length (listeners t)"
          by (rule Suc.IH [OF Suc.prems(1)]) (use fuel len in simp)
        then show ?thesis using True Some inv Returned len by simp
      next
        case (Raised x)
        then show ?thesis using True Some inv len by simp
      qed
    qed
  qed
qed

lemma update_unfold:
  "update p fuel u s = forEach p fuel 0 (s\<lparr>count := mutator u (count s)\<rparr>)"
  by (cases u) (simp_all add: increment_def decrement_def reset_def notifyListeners_def)

lemma update_terminates:
  assumes "\<forall>l x. Subscribe x \<notin> set (p l)" and "length (listeners s) < fuel"
  shows "\<exists>c s'. update p fuel u s = Some (c, s') \<and> length (listeners s') = length (listeners s)"
  using forEach_terminates [of p "s\<lparr>count := mutator u (count s)\<rparr>" 0 fuel] assms
  by (simp add: update_unfold)

lemma requests_terminate:
  "\<forall>l x. Subscribe x \<notin> set (p l) \<Longrightarrow> length (listeners s) + length rs < fuel \<Longrightarrow>
   \<exists>s'. requests p fuel rs s = Some s'"
proof (induction rs arbitrary: s)
  case Nil
  then show ?case by simp
next
  case (Cons r rs)
  have "\<exists>c t. perform p fuel r s = Some (c, t) \<and> length (listeners t) \<le> Suc (length (listeners s))"
  proof (cases r)
    case (Update u)
    have "length (listeners s) < fuel" using Cons.prems(2) by simp
    from update_terminates [OF Cons.prems(1) this, of u] show ?thesis
      using Update by auto
  next
    case (Sub l)
    then show ?thesis by (simp add: subscribe_def length_set_add)
  next
    case (Unsub l)
    then show ?thesis by (simp add: unsubscribe_def length_set_delete)
  next
    case GetSnapshot
    then show ?thesis by (simp add: getSnapshot_def)
  qed
  then obtain c t where st: "perform p fuel r s = Some (c, t)"
    and len: "length (listeners t) \<le> Suc (length (listeners s))" by blast
  have "\<exists>s'. requests p fuel rs t = Some s'"
    by (rule Cons.IH [OF Cons.prems(1)]) (use len Cons.prems(2) in simp)
  then show ?case using st by simp
qed

lemma forEach_count: "forEach p n i s = Some (c, s') \<Longrightarrow> count s' = count s"
proof (induction n arbitrary: i s)
  case 0
  then show ?case by simp
next
  case (Suc n)
  show ?case
  proof (cases "i < length (listeners s)")
    case False
    with Suc.prems show ?thesis by simp
  next
    case True
    show ?thesis
    proof (cases "listeners s ! i")
      case None
      with True Suc.prems have "forEach p n (Suc i) s = Some (c, s')" by simp
      then show ?thesis by (rule Suc.IH)
    next
      case (Some l)
      obtain r t where inv: "invoke p l s = (r, t)" by (cases "invoke p l s")
      have ct: "count t = count s" using invoke_count [of p l s] inv by simp
      show ?thesis
      proof (cases r)
        case Returned
        with True Some inv Suc.prems have "forEach p n (Suc i) t = Some (c, s')" by simp
        then have "count s' = count t" by (rule Suc.IH)
        with ct show ?thesis by simp
      next
        case (Raised x)
        with True Some inv Suc.prems have "s' = t" by simp
        with ct show ?thesis by simp
      qed
    qed
  qed
qed

lemma update_count: "update p fuel u s = Some (c, s') \<Longrightarrow> count s' = mutator u (count s)"
  using forEach_count [of p fuel 0 "s\<lparr>count := mutator u (count s)\<rparr>" c s']
  by (simp add: update_unfold)

lemma perform_count:
  "perform p fuel r s = Some (c, s') \<Longrightarrow>
   count s' = (case r of Update u \<Rightarrow> mutator u (count s) | _ \<Rightarrow> count s)"
  by (cases r) (auto simp add: update_count subscribe_def unsubscribe_def getSnapshot_def)

lemma requests_count:
  "requests p fuel rs s = Some s' \<Longrightarrow> count s' = foldl (\<lambda>v u. mutator u v) (count s) (updates rs)"
proof (induction rs arbitrary: s)
  case Nil
  then show ?case by simp
next
  case (Cons r rs)
  then obtain c t where st: "perform p fuel r s = Some (c, t)" and rest: "requests p fuel rs t = Some s'"
    by (auto split: option.splits)
  have "count s' = foldl (\<lambda>v u. mutator u v) (count t) (updates rs)"
    using rest by (rule Cons.IH)
  then show ?case using perform_count [OF st] by (cases r) simp_all
qed



lemma forEach_recorders:
  "\<forall>l. Some l \<in> set (drop i (listeners s)) \<longrightarrow> p l = [] \<Longrightarrow>
   length (listeners s) - i < n \<Longrightarrow>
   forEach p n i s = Some (Returned, s\<lparr>calls := calls s @ live (drop i (listeners s))\<rparr>)"
proof (induction n arbitrary: i s)
  case 0
  then show ?case by simp
next
  case (Suc n)
  show ?case
  proof (cases "i < length (listeners s)")
    case False
    then show ?thesis by simp
  next
    case True
    then have dr: "drop i (listeners s) = listeners s ! i # drop (Suc i) (listeners s)"
      by (simp add: Cons_nth_drop_Suc)
    have rest: "\<forall>l. Some l \<in> set (drop (Suc i) (listeners s)) \<longrightarrow> p l = []"
      using Suc.prems(1) dr by simp
    have fuel: "length (listeners s) - Suc i < n" using Suc.prems(2) True by arith
    show ?thesis
    proof (cases "listeners s ! i")
      case None
      then show ?thesis using True dr Suc.IH [OF rest fuel] by simp
    next
      case (Some l)
      then have pl: "p l = []" using Suc.prems(1) dr by simp
      let ?t = "s\<lparr>calls := calls s @ [l]\<rparr>"
      have inv: "invoke p l s = (Returned, ?t)" by (simp add: invoke_def pl)
      have "forEach p n (Suc i) ?t = Some (Returned, ?t\<lparr>calls := calls ?t @ live (drop (Suc i) (listeners ?t))\<rparr>)"
        by (rule Suc.IH) (use rest fuel in simp_all)
      then show ?thesis using True Some inv dr by simp
    qed
  qed
qed

lemma update_recorders:
  assumes "\<forall>l. Some l \<in> set (listeners s) \<longrightarrow> p l = []" and "length (listeners s) < fuel"
  shows "update p fuel u s =
         Some (Returned, s\<lparr>calls := calls s @ live (listeners s), count := mutator u (count s)\<rparr>)"
  using forEach_recorders [of 0 "s\<lparr>count := mutator u (count s)\<rparr>" p fuel] assms
  by (simp add: update_unfold)

lemma mutator_arith: "\<bar>v\<bar> < 2 ^ 53 \<Longrightarrow> mutator u v = arith u v"
  by (cases u) (auto simp add: js_inc_def js_dec_def)

lemma arith_bound: "\<bar>arith u v\<bar> \<le> \<bar>v\<bar> + 1"
  by (cases u) auto

lemma mutators_exact:
  "\<bar>v\<bar> + int (length us) \<le> 2 ^ 53 \<Longrightarrow>
   foldl (\<lambda>v u. mutator u v) v us = foldl (\<lambda>v u. arith u v) v us"
proof (induction us arbitrary: v)
  case Nil
  then show ?case by simp
next
  case (Cons u us)
  have small: "\<bar>v\<bar> < 2 ^ 53" using Cons.prems by simp
  have "\<bar>arith u v\<bar> + int (length us) \<le> 2 ^ 53"
    using arith_bound [of u v] Cons.prems by simp
  then have "foldl (\<lambda>v u. mutator u v) (arith u v) us = foldl (\<lambda>v u. arith u v) (arith u v) us"
    by (rule Cons.IH)
  then show ?case using mutator_arith [OF small] by simp
qed

section \<open>Properties of the counter store\<close>

text \<open>
  C1. After any sequence of requests on a new counter store, \<open>getSnapshot\<close> returns the
  mutators of the updates of the sequence (\<open>count++\<close>, \<open>count--\<close>, \<open>count = 0\<close>) folded
  over 0 in call order, whatever the callbacks do and whether an update returned or
  raised. The sequence comes to its end when no callback subscribes (the fuel is more
  than the number of requests). Up to \<open>2^53\<close> updates the mutators are \<open>+1\<close>, \<open>-1\<close> and
  constantly 0 on the integers. Before the first update \<open>getSnapshot\<close> returns 0, and an
  update of a store with no listener returns normally.
\<close>

theorem counter_snapshot_folds_updates:
  "(requests p fuel rs createCounterStore = Some s \<longrightarrow>
      fst (getSnapshot s) = foldl (\<lambda>v u. mutator u v) 0 (updates rs))
   \<and> ((\<forall>l x. Subscribe x \<notin> set (p l)) \<and> length rs < fuel \<longrightarrow>
      (\<exists>s'. requests p fuel rs createCounterStore = Some s'))
   \<and> (int (length (updates rs)) \<le> 2 ^ 53 \<longrightarrow>
      foldl (\<lambda>v u. mutator u v) 0 (updates rs) = foldl (\<lambda>v u. arith u v) 0 (updates rs))
   \<and> fst (getSnapshot createCounterStore) = 0
   \<and> (live (listeners t) = [] \<and> length (listeners t) < fuel \<longrightarrow>
      update p fuel u t = Some (Returned, t\<lparr>count := mutator u (count t)\<rparr>))"
proof (intro conjI impI)
  assume "requests p fuel rs createCounterStore = Some s"
  from requests_count [OF this]
  show "fst (getSnapshot s) = foldl (\<lambda>v u. mutator u v) 0 (updates rs)"
    by (simp add: getSnapshot_def createCounterStore_def)
next
  assume "(\<forall>l x. Subscribe x \<notin> set (p l)) \<and> length rs < fuel"
  then show "\<exists>s'. requests p fuel rs createCounterStore = Some s'"
    using requests_terminate [of p createCounterStore rs fuel]
    by (simp add: createCounterStore_def)
next
  assume "int (length (updates rs)) \<le> 2 ^ 53"
  then show "foldl (\<lambda>v u. mutator u v) 0 (updates rs) = foldl (\<lambda>v u. arith u v) 0 (updates rs)"
    using mutators_exact [of 0 "updates rs"] by simp
next
  show "fst (getSnapshot createCounterStore) = 0"
    by (simp add: getSnapshot_def createCounterStore_def)
next
  assume a: "live (listeners t) = [] \<and> length (listeners t) < fuel"
  then have "\<forall>l. Some l \<notin> set (listeners t)"
    using set_live [of "listeners t"] by auto
  then show "update p fuel u t = Some (Returned, t\<lparr>count := mutator u (count t)\<rparr>)"
    using update_recorders [of t p fuel u] a by simp
qed

theorem counter_snapshot_folds_updates_witness:
  "requests recorder 8 [Update Increment, Sub 7, Update Increment, Update Decrement, GetSnapshot, Update Reset, Update Decrement] createCounterStore
     = Some \<lparr>listeners = [Some 7], calls = [7, 7, 7, 7], count = - 1\<rparr>
   \<and> length [Update Increment, Sub 7, Update Increment, Update Decrement, GetSnapshot, Update Reset, Update Decrement] < (8::nat)
   \<and> fst (getSnapshot \<lparr>listeners = [Some 7], calls = [7, 7, 7, 7], count = - 1\<rparr>) = - 1
   \<and> foldl (\<lambda>v u. arith u v) 0 [Increment, Increment, Decrement, Reset, Decrement] = - 1
   \<and> live (listeners \<lparr>listeners = [None, None], calls = [], count = 0\<rparr>) = []
   \<and> update recorder 8 Decrement \<lparr>listeners = [None, None], calls = [], count = 0\<rparr>
     = Some (Returned, \<lparr>listeners = [None, None], calls = [], count = - 1\<rparr>)"
  using counter_snapshot_folds_updates [of recorder 8
      "[Update Increment, Sub 7, Update Increment, Update Decrement, GetSnapshot, Update Reset, Update Decrement]"
      "\<lparr>listeners = [Some 7], calls = [7, 7, 7, 7], count = - 1\<rparr>"
      "\<lparr>listeners = [None, None], calls = [], count = 0\<rparr>" Decrement]
  by (simp add: recorder_def createCounterStore_def increment_def decrement_def reset_def
      notifyListeners_def invoke_def subscribe_def set_add_def getSnapshot_def js_inc_def js_dec_def
      eval_nat_numeral)

subsection \<open>A callback that is not registered is not called\<close>

lemma exec_calls: "calls (snd (exec x es s)) = calls s"
  by (induction x es s rule: exec.induct) (simp_all add: subscribe_def unsubscribe_def)

lemma exec_absent:
  "Subscribe l \<notin> set es \<Longrightarrow> Some l \<notin> set (listeners s) \<Longrightarrow>
   Some l \<notin> set (listeners (snd (exec x es s)))"
  by (induction x es s rule: exec.induct)
     (auto simp add: subscribe_def unsubscribe_def set_add_def set_delete_def)

lemma forEach_absent:
  "\<forall>x. Subscribe l \<notin> set (p x) \<Longrightarrow> Some l \<notin> set (listeners s) \<Longrightarrow>
   forEach p n i s = Some (c, s') \<Longrightarrow>
   Some l \<notin> set (listeners s') \<and> count_list (calls s') l = count_list (calls s) l"
proof (induction n arbitrary: i s)
  case 0
  then show ?case by simp
next
  case (Suc n)
  show ?case
  proof (cases "i < length (listeners s)")
    case False
    with Suc.prems show ?thesis by simp
  next
    case True
    show ?thesis
    proof (cases "listeners s ! i")
      case None
      with True Suc.prems(3) have "forEach p n (Suc i) s = Some (c, s')" by simp
      from Suc.IH [OF Suc.prems(1) Suc.prems(2) this] show ?thesis .
    next
      case (Some x)
      then have "Some x \<in> set (listeners s)" using True nth_mem by metis
      then have xl: "x \<noteq> l" using Suc.prems(2) by auto
      obtain r t where inv: "invoke p x s = (r, t)" by (cases "invoke p x s")
      have t_abs: "Some l \<notin> set (listeners t)"
        using exec_absent [of l "p x" "s\<lparr>calls := calls s @ [x]\<rparr>" x] Suc.prems(1,2) inv
        by (simp add: invoke_def)
      have t_calls: "count_list (calls t) l = count_list (calls s) l"
        using exec_calls [of x "p x" "s\<lparr>calls := calls s @ [x]\<rparr>"] inv xl
        by (simp add: invoke_def)
      show ?thesis
      proof (cases r)
        case Returned
        with True Some inv Suc.prems(3) have "forEach p n (Suc i) t = Some (c, s')" by simp
        from Suc.IH [OF Suc.prems(1) t_abs this] t_calls show ?thesis by simp
      next
        case (Raised y)
        with True Some inv Suc.prems(3) have "s' = t" by simp
        with t_abs t_calls show ?thesis by simp
      qed
    qed
  qed
qed

lemma perform_absent:
  assumes "\<forall>x. Subscribe l \<notin> set (p x)" and "r \<noteq> Sub l" and "Some l \<notin> set (listeners s)"
    and "perform p fuel r s = Some (c, s')"
  shows "Some l \<notin> set (listeners s') \<and> count_list (calls s') l = count_list (calls s) l"
proof (cases r)
  case (Update u)
  then have "forEach p fuel 0 (s\<lparr>count := mutator u (count s)\<rparr>) = Some (c, s')"
    using assms(4) by (simp add: update_unfold)
  from forEach_absent [OF assms(1) _ this] assms(3) show ?thesis by simp
next
  case (Sub x)
  then show ?thesis using assms by (auto simp add: subscribe_def set_add_def split: if_splits)
next
  case (Unsub x)
  then show ?thesis using assms by (auto simp add: unsubscribe_def set_delete_def)
next
  case GetSnapshot
  then show ?thesis using assms by (auto simp add: getSnapshot_def)
qed

lemma requests_absent:
  "\<forall>x. Subscribe l \<notin> set (p x) \<Longrightarrow> Sub l \<notin> set rs \<Longrightarrow> Some l \<notin> set (listeners s) \<Longrightarrow>
   requests p fuel rs s = Some s' \<Longrightarrow> count_list (calls s') l = count_list (calls s) l"
proof (induction rs arbitrary: s)
  case Nil
  then show ?case by simp
next
  case (Cons r rs)
  from Cons.prems(4) obtain c t where st: "perform p fuel r s = Some (c, t)"
    and rest: "requests p fuel rs t = Some s'"
    by (auto split: option.splits)
  have rl: "r \<noteq> Sub l" and rsl: "Sub l \<notin> set rs" using Cons.prems(2) by auto
  from perform_absent [OF Cons.prems(1) rl Cons.prems(3) st]
  have t_abs: "Some l \<notin> set (listeners t)" and t_calls: "count_list (calls t) l = count_list (calls s) l"
    by simp_all
  from Cons.IH [OF Cons.prems(1) rsl t_abs rest] t_calls show ?case by simp
qed

text \<open>
  C7. A callback whose unsubscribe handle has been called is not called by any later
  update, as long as nobody subscribes it again: its call count stays what it was.
  The later requests come to their end when no callback subscribes. In
  the scenario subscribe L1, subscribe L2, unsubscribe L1, one update, the update
  returns and has called L2 once and L1 not at all.
\<close>

theorem unsubscribed_listener_not_invoked:
  "((\<forall>x. Subscribe l \<notin> set (p x)) \<and> Sub l \<notin> set rs \<and>
      requests p fuel rs (unsubscribe l s) = Some s' \<longrightarrow>
        count_list (calls s') l = count_list (calls s) l)
   \<and> ((\<forall>x y. Subscribe y \<notin> set (p x)) \<and> length (listeners s) + length rs < fuel \<longrightarrow>
        (\<exists>s'. requests p fuel rs (unsubscribe l s) = Some s'))
   \<and> (L1 \<noteq> L2 \<and> p L2 = [] \<and> 2 < fuel \<longrightarrow>
        requests p fuel [Sub L1, Sub L2, Unsub L1, Update u] createCounterStore
          = Some \<lparr>listeners = [None, Some L2], calls = [L2], count = mutator u 0\<rparr>)"
proof (intro conjI impI)
  assume "(\<forall>x y. Subscribe y \<notin> set (p x)) \<and> length (listeners s) + length rs < fuel"
  then show "\<exists>s'. requests p fuel rs (unsubscribe l s) = Some s'"
    using requests_terminate [of p "unsubscribe l s" rs fuel]
    by (simp add: unsubscribe_def length_set_delete)
next
  assume a: "(\<forall>x. Subscribe l \<notin> set (p x)) \<and> Sub l \<notin> set rs \<and>
      requests p fuel rs (unsubscribe l s) = Some s'"
  have "Some l \<notin> set (listeners (unsubscribe l s))"
    by (simp add: unsubscribe_def set_delete_removes)
  with a have "count_list (calls s') l = count_list (calls (unsubscribe l s)) l"
    using requests_absent [of l p rs "unsubscribe l s" fuel s'] by blast
  then show "count_list (calls s') l = count_list (calls s) l"
    by (simp add: unsubscribe_def)
next
  assume a: "L1 \<noteq> L2 \<and> p L2 = [] \<and> 2 < fuel"
  let ?s = "\<lparr>listeners = [None, Some L2], calls = [], count = 0\<rparr>"
  have "update p fuel u ?s =
        Some (Returned, ?s\<lparr>calls := calls ?s @ live (listeners ?s), count := mutator u (count ?s)\<rparr>)"
    by (rule update_recorders) (use a in simp_all)
  then show "requests p fuel [Sub L1, Sub L2, Unsub L1, Update u] createCounterStore
          = Some \<lparr>listeners = [None, Some L2], calls = [L2], count = mutator u 0\<rparr>"
    using a by (simp add: createCounterStore_def subscribe_def unsubscribe_def set_add_def set_delete_def)
qed

theorem unsubscribed_listener_not_invoked_witness:
  "requests (only 2 [Unsubscribe 3]) 5 [Update Increment, Sub 4, Update Reset]
      (unsubscribe 3 \<lparr>listeners = [Some 1, Some 2, Some 3], calls = [1, 2, 3], count = 5\<rparr>)
     = Some \<lparr>listeners = [Some 1, Some 2, None, Some 4], calls = [1, 2, 3, 1, 2, 1, 2, 4], count = 0\<rparr>
   \<and> count_list [1, 2, 3, 1, 2, 1, 2, 4] (3::nat) = count_list [1, 2, 3] (3::nat)
   \<and> requests recorder 3 [Sub 1, Sub 2, Unsub 1, Update Increment] createCounterStore
       = Some \<lparr>listeners = [None, Some 2], calls = [2], count = 1\<rparr>"
  using unsubscribed_listener_not_invoked [of 3 "only 2 [Unsubscribe 3]"
      "[Update Increment, Sub 4, Update Reset]" 5
      "\<lparr>listeners = [Some 1, Some 2, Some 3], calls = [1, 2, 3], count = 5\<rparr>"
      "\<lparr>listeners = [Some 1, Some 2, None, Some 4], calls = [1, 2, 3, 1, 2, 1, 2, 4], count = 0\<rparr>"
      1 2 Increment]
    unsubscribed_listener_not_invoked [of 3 recorder "[]" 3
      "\<lparr>listeners = [], calls = [], count = 0\<rparr>" "\<lparr>listeners = [], calls = [], count = 0\<rparr>"
      1 2 Increment]
  by (simp add: only_def recorder_def createCounterStore_def increment_def decrement_def reset_def
      notifyListeners_def invoke_def subscribe_def unsubscribe_def set_add_def set_delete_def
      js_inc_def js_dec_def eval_nat_numeral)

text \<open>
  C8. An update that leaves the value as it was still notifies: in a store with one
  registered callback, a call recorder, such an update (\<open>reset\<close> when the count is 0,
  for one) returns, has called the callback once more, and \<open>getSnapshot\<close> returns the
  same value as before.
\<close>

theorem equal_value_update_still_notifies:
  "live (listeners s) = [l] \<and> p l = [] \<and> length (listeners s) < fuel \<longrightarrow>
     (mutator u (count s) = count s \<longrightarrow>
        update p fuel u s = Some (Returned, s\<lparr>calls := calls s @ [l]\<rparr>))
     \<and> (count s = 0 \<longrightarrow>
        reset p fuel s = Some (Returned, s\<lparr>calls := calls s @ [l]\<rparr>))
     \<and> fst (getSnapshot (s\<lparr>calls := calls s @ [l]\<rparr>)) = count s"
proof (intro impI)
  assume a: "live (listeners s) = [l] \<and> p l = [] \<and> length (listeners s) < fuel"
  then have "set (live (listeners s)) = {l}" by simp
  then have rec: "\<forall>x. Some x \<in> set (listeners s) \<longrightarrow> p x = []"
    using a set_live [of "listeners s"] by auto
  have len: "length (listeners s) < fuel" using a by simp
  have upd: "update p fuel v s =
      Some (Returned, s\<lparr>calls := calls s @ [l], count := mutator v (count s)\<rparr>)" for v
    using update_recorders [OF rec len, of v] a by simp
  have one: "mutator u (count s) = count s \<longrightarrow>
        update p fuel u s = Some (Returned, s\<lparr>calls := calls s @ [l]\<rparr>)"
    using upd [of u] by simp
  have two: "count s = 0 \<longrightarrow> reset p fuel s = Some (Returned, s\<lparr>calls := calls s @ [l]\<rparr>)"
    using upd [of Reset] by auto
  have three: "fst (getSnapshot (s\<lparr>calls := calls s @ [l]\<rparr>)) = count s"
    by (simp add: getSnapshot_def)
  from one two three show "(mutator u (count s) = count s \<longrightarrow>
        update p fuel u s = Some (Returned, s\<lparr>calls := calls s @ [l]\<rparr>))
     \<and> (count s = 0 \<longrightarrow>
        reset p fuel s = Some (Returned, s\<lparr>calls := calls s @ [l]\<rparr>))
     \<and> fst (getSnapshot (s\<lparr>calls := calls s @ [l]\<rparr>)) = count s"
    by blast
qed

theorem equal_value_update_still_notifies_witness:
  "live (listeners \<lparr>listeners = [None, Some 4], calls = [4], count = 0\<rparr>) = [4]
   \<and> recorder 4 = []
   \<and> mutator Reset (count \<lparr>listeners = [None, Some 4], calls = [4], count = 0\<rparr>) = 0
   \<and> reset recorder 3 \<lparr>listeners = [None, Some 4], calls = [4], count = 0\<rparr>
       = Some (Returned, \<lparr>listeners = [None, Some 4], calls = [4, 4], count = 0\<rparr>)
   \<and> fst (getSnapshot \<lparr>listeners = [None, Some 4], calls = [4, 4], count = 0\<rparr>) = 0"
  using equal_value_update_still_notifies
    [of "\<lparr>listeners = [None, Some 4], calls = [4], count = 0\<rparr>" 4 recorder 3 Reset]
  by (simp add: recorder_def getSnapshot_def)

text \<open>
  C9. \<open>getSnapshot\<close> has no effect: any number of calls leaves the whole store, value
  and listener set, as it was, and returns the count. \<open>subscribe\<close> and the unsubscribe
  handle leave the value as it was. Of all requests only the updates change the value,
  each by its mutator, whatever the callbacks do during the notification.
\<close>

theorem getSnapshot_pure_value_changed_by_updates_only:
  "((snd \<circ> getSnapshot) ^^ n) s = s
   \<and> fst (getSnapshot s) = count s
   \<and> count (subscribe l s) = count s
   \<and> count (unsubscribe l s) = count s
   \<and> (perform p fuel r s = Some (c, s') \<longrightarrow>
        count s' = (case r of Update u \<Rightarrow> mutator u (count s) | _ \<Rightarrow> count s))"
proof -
  have "(snd \<circ> getSnapshot) = id" by (rule ext) (simp add: getSnapshot_def)
  then have "((snd \<circ> getSnapshot) ^^ n) s = s" by simp
  then show ?thesis
    using perform_count [of p fuel r s c s']
    by (simp add: getSnapshot_def subscribe_def unsubscribe_def)
qed

theorem getSnapshot_pure_value_changed_by_updates_only_witness:
  "perform (only 1 [Subscribe 2, Throw]) 3 (Update Decrement) \<lparr>listeners = [Some 1], calls = [], count = 7\<rparr>
     = Some (Raised 1, \<lparr>listeners = [Some 1, Some 2], calls = [1], count = 6\<rparr>)
   \<and> count \<lparr>listeners = [Some 1, Some 2], calls = [1], count = 6\<rparr> = mutator Decrement 7"
  using getSnapshot_pure_value_changed_by_updates_only
    [of 0 "\<lparr>listeners = [Some 1], calls = [], count = 7\<rparr>" 0 "only 1 [Subscribe 2, Throw]" 3
        "Update Decrement" "Raised 1" "\<lparr>listeners = [Some 1, Some 2], calls = [1], count = 6\<rparr>"]
  by (simp add: only_def decrement_def notifyListeners_def invoke_def subscribe_def set_add_def
      js_dec_def eval_nat_numeral)

text \<open>
  C6. Calling an unsubscribe handle again does nothing: the call returns normally and
  leaves the store exactly as the first call left it, however often it is repeated, and
  so does every call of the handle of a callback that is not registered. No call of
  a handle changes the value or the trace of calls, and the other callbacks stay
  registered, in the same order.
\<close>

theorem unsubscribe_again_is_noop:
  "perform p fuel (Unsub l) (unsubscribe l s) = Some (Returned, unsubscribe l s)
   \<and> (unsubscribe l ^^ Suc k) s = unsubscribe l s
   \<and> (Some l \<notin> set (listeners s) \<longrightarrow> unsubscribe l s = s)
   \<and> count (unsubscribe l s) = count s
   \<and> calls (unsubscribe l s) = calls s
   \<and> live (listeners (unsubscribe l s)) = removeAll l (live (listeners s))"
proof -
  have absent: "Some l \<notin> set (listeners t) \<Longrightarrow> unsubscribe l t = t" for t :: counter_store
    by (simp add: unsubscribe_def set_delete_absent)
  have twice: "unsubscribe l (unsubscribe l s) = unsubscribe l s"
    by (rule absent) (simp add: unsubscribe_def set_delete_removes)
  have "(unsubscribe l ^^ k) (unsubscribe l s) = unsubscribe l s"
    by (induction k) (simp_all add: twice)
  then have rep: "(unsubscribe l ^^ Suc k) s = unsubscribe l s"
    by (simp add: funpow_swap1)
  show ?thesis
    using absent [of s] twice rep
    by (simp add: unsubscribe_def live_set_delete)
qed

theorem unsubscribe_again_is_noop_witness:
  "Some 2 \<notin> set (listeners \<lparr>listeners = [Some 1, None, Some 3], calls = [1], count = 4\<rparr>)
   \<and> unsubscribe 2 \<lparr>listeners = [Some 1, None, Some 3], calls = [1], count = 4\<rparr>
       = \<lparr>listeners = [Some 1, None, Some 3], calls = [1], count = 4\<rparr>"
  using unsubscribe_again_is_noop
    [of recorder 0 2 "\<lparr>listeners = [Some 1, None, Some 3], calls = [1], count = 4\<rparr>" 0]
  by simp

subsection \<open>A pass up to the first callback that is not a recorder\<close>

lemma forEach_prefix:
  "drop i (listeners s) = pre @ rest \<Longrightarrow> \<forall>l. Some l \<in> set pre \<longrightarrow> p l = [] \<Longrightarrow>
   forEach p (length pre + n) i s = forEach p n (i + length pre) (s\<lparr>calls := calls s @ live pre\<rparr>)"
proof (induction pre arbitrary: i s)
  case Nil
  then show ?case by simp
next
  case (Cons e pre)
  have dr: "drop i (listeners s) = e # (pre @ rest)" using Cons.prems(1) by simp
  then have "drop i (listeners s) \<noteq> []" by simp
  then have i: "i < length (listeners s)" by simp
  have e: "listeners s ! i = e" using dr by (rule nth_via_drop)
  have dr': "drop (Suc i) (listeners s) = pre @ rest"
    using dr Cons_nth_drop_Suc [OF i] by simp
  have rec: "\<forall>l. Some l \<in> set pre \<longrightarrow> p l = []" using Cons.prems(2) by simp
  show ?case
  proof (cases e)
    case None
    then show ?thesis using i e Cons.IH [OF dr' rec] by simp
  next
    case (Some l)
    then have pl: "p l = []" using Cons.prems(2) by simp
    let ?t = "s\<lparr>calls := calls s @ [l]\<rparr>"
    have inv: "invoke p l s = (Returned, ?t)" by (simp add: invoke_def pl)
    have "drop (Suc i) (listeners ?t) = pre @ rest" using dr' by simp
    from Cons.IH [OF this rec]
    have "forEach p (length pre + n) (Suc i) ?t
          = forEach p n (Suc i + length pre) (?t\<lparr>calls := calls ?t @ live pre\<rparr>)" .
    then show ?thesis using i e Some inv by simp
  qed
qed

lemma forEach_split:
  assumes "listeners s = xs @ Some a # ys" and "\<forall>l. Some l \<in> set xs \<longrightarrow> p l = []"
  shows "forEach p (Suc (length xs + n)) 0 s =
         (case invoke p a (s\<lparr>calls := calls s @ live xs\<rparr>) of
            (Raised x, s') \<Rightarrow> Some (Raised x, s')
          | (Returned, s') \<Rightarrow> forEach p n (Suc (length xs)) s')"
proof -
  have "drop 0 (listeners s) = xs @ (Some a # ys)" using assms(1) by simp
  from forEach_prefix [OF this assms(2), of "Suc n"]
  have "forEach p (Suc (length xs + n)) 0 s
        = forEach p (Suc n) (length xs) (s\<lparr>calls := calls s @ live xs\<rparr>)" by simp
  then show ?thesis using assms(1) by simp
qed

lemma exec_throw: "Throw \<in> set es \<Longrightarrow> fst (exec a es s) = Raised a"
  by (induction a es s rule: exec.induct) auto

lemma count_list_distinct: "distinct xs \<Longrightarrow> count_list xs x = (if x \<in> set xs then 1 else 0)"
  by (induction xs) auto

lemma count_list_removeAll: "count_list (removeAll b xs) x = (if x = b then 0 else count_list xs x)"
  by (induction xs) auto


lemma update_split:
  assumes "listeners s = xs @ Some a # ys" and "\<forall>l. Some l \<in> set xs \<longrightarrow> p l = []"
    and "length xs < fuel"
  shows "update p fuel u s =
         (case invoke p a (s\<lparr>count := mutator u (count s), calls := calls s @ live xs\<rparr>) of
            (Raised x, s') \<Rightarrow> Some (Raised x, s')
          | (Returned, s') \<Rightarrow> forEach p (fuel - Suc (length xs)) (Suc (length xs)) s')"
proof -
  have fuel: "fuel = Suc (length xs + (fuel - Suc (length xs)))" using assms(3) by simp
  have "listeners (s\<lparr>count := mutator u (count s)\<rparr>) = xs @ Some a # ys" using assms(1) by simp
  from forEach_split [OF this assms(2), of "fuel - Suc (length xs)"] fuel
  show ?thesis by (simp add: update_unfold)
qed

text \<open>
  C4, as the code has it. There is no \<open>try\<close> around the call of a listener. When a
  registered callback raises during the pass of an update, the callbacks before it in
  the set (call recorders here) have been called, the pass ends there, so that the
  callbacks after it are not called in this pass, the value is the new value, and the
  update raises the exception of the callback. The claim as stated fails: with the
  callbacks 1 and 2 registered and 1 raising, an update calls 1 only and raises.
\<close>

theorem raising_listener_ends_pass:
  "listeners s = xs @ Some a # ys \<and> (\<forall>l. Some l \<in> set xs \<longrightarrow> p l = []) \<and>
   Throw \<in> set (p a) \<and> length xs < fuel \<longrightarrow>
   (\<exists>s'. update p fuel u s = Some (Raised a, s') \<and> calls s' = calls s @ live xs @ [a]
      \<and> fst (getSnapshot s') = mutator u (count s))"
proof
  assume a: "listeners s = xs @ Some a # ys \<and> (\<forall>l. Some l \<in> set xs \<longrightarrow> p l = []) \<and>
   Throw \<in> set (p a) \<and> length xs < fuel"
  let ?t = "s\<lparr>count := mutator u (count s), calls := calls s @ live xs\<rparr>"
  obtain r s' where inv: "invoke p a ?t = (r, s')" by (cases "invoke p a ?t")
  have r: "r = Raised a"
    using exec_throw [of "p a" a "?t\<lparr>calls := calls ?t @ [a]\<rparr>"] a inv by (simp add: invoke_def)
  have c: "calls s' = calls s @ live xs @ [a]"
    using exec_calls [of a "p a" "?t\<lparr>calls := calls ?t @ [a]\<rparr>"] inv by (simp add: invoke_def)
  have v: "count s' = mutator u (count s)"
    using invoke_count [of p a ?t] inv by simp
  have "update p fuel u s = Some (Raised a, s')"
    using update_split [of s xs a ys p fuel u] a inv r by simp
  then show "\<exists>s'. update p fuel u s = Some (Raised a, s') \<and> calls s' = calls s @ live xs @ [a]
      \<and> fst (getSnapshot s') = mutator u (count s)"
    using c v by (simp add: getSnapshot_def)
qed

theorem raising_listener_ends_pass_witness:
  "listeners \<lparr>listeners = [Some 1, Some 2, Some 3], calls = [], count = 0\<rparr> = [Some 1] @ Some 2 # [Some 3]
   \<and> Throw \<in> set (only 2 [Throw] 2)
   \<and> update (only 2 [Throw]) 3 Increment \<lparr>listeners = [Some 1, Some 2, Some 3], calls = [], count = 0\<rparr>
       = Some (Raised 2, \<lparr>listeners = [Some 1, Some 2, Some 3], calls = [1, 2], count = 1\<rparr>)"
  using raising_listener_ends_pass
    [of "\<lparr>listeners = [Some 1, Some 2, Some 3], calls = [], count = 0\<rparr>" "[Some 1]" 2 "[Some 3]"
        "only 2 [Throw]" 3 Increment]
  by (simp add: only_def increment_def notifyListeners_def invoke_def js_inc_def eval_nat_numeral)

theorem raising_listener_counterexample:
  "increment (only 1 [Throw]) 3 (subscribe 2 (subscribe 1 createCounterStore))
     = Some (Raised 1, \<lparr>listeners = [Some 1, Some 2], calls = [1], count = 1\<rparr>)"
  by (simp add: only_def increment_def notifyListeners_def invoke_def js_inc_def eval_nat_numeral
      createCounterStore_def subscribe_def set_add_def)


subsection \<open>The set holds every callback once\<close>

text \<open>
  A \<open>Set\<close> never holds a value twice: the elements of the listener set are distinct
  in a new store and stay so under every request, whatever the callbacks do.
\<close>

lemma exec_distinct:
  "distinct (live (listeners s)) \<Longrightarrow> distinct (live (listeners (snd (exec l es s))))"
  by (induction l es s rule: exec.induct)
     (simp_all add: subscribe_def unsubscribe_def distinct_live_add distinct_live_delete)

lemma forEach_distinct:
  "distinct (live (listeners s)) \<Longrightarrow> forEach p n i s = Some (c, s') \<Longrightarrow>
   distinct (live (listeners s'))"
proof (induction n arbitrary: i s)
  case 0
  then show ?case by simp
next
  case (Suc n)
  show ?case
  proof (cases "i < length (listeners s)")
    case False
    with Suc.prems show ?thesis by simp
  next
    case True
    show ?thesis
    proof (cases "listeners s ! i")
      case None
      with True Suc.prems(2) have "forEach p n (Suc i) s = Some (c, s')" by simp
      from Suc.IH [OF Suc.prems(1) this] show ?thesis .
    next
      case (Some x)
      obtain r t where inv: "invoke p x s = (r, t)" by (cases "invoke p x s")
      have d: "distinct (live (listeners t))"
        using exec_distinct [of "s\<lparr>calls := calls s @ [x]\<rparr>" x "p x"] Suc.prems(1) inv
        by (simp add: invoke_def)
      show ?thesis
      proof (cases r)
        case Returned
        with True Some inv Suc.prems(2) have "forEach p n (Suc i) t = Some (c, s')" by simp
        from Suc.IH [OF d this] show ?thesis .
      next
        case (Raised y)
        with True Some inv Suc.prems(2) have "s' = t" by simp
        with d show ?thesis by simp
      qed
    qed
  qed
qed

lemma perform_distinct:
  assumes "distinct (live (listeners s))" and "perform p fuel r s = Some (c, s')"
  shows "distinct (live (listeners s'))"
proof (cases r)
  case (Update u)
  then have "forEach p fuel 0 (s\<lparr>count := mutator u (count s)\<rparr>) = Some (c, s')"
    using assms(2) by (simp add: update_unfold)
  from forEach_distinct [OF _ this] assms(1) show ?thesis by simp
next
  case (Sub x)
  then show ?thesis using assms by (auto simp add: subscribe_def distinct_live_add)
next
  case (Unsub x)
  then show ?thesis using assms by (auto simp add: unsubscribe_def distinct_live_delete)
next
  case GetSnapshot
  then show ?thesis using assms by (auto simp add: getSnapshot_def)
qed

lemma requests_distinct:
  "distinct (live (listeners s)) \<Longrightarrow> requests p fuel rs s = Some s' \<Longrightarrow>
   distinct (live (listeners s'))"
proof (induction rs arbitrary: s)
  case Nil
  then show ?case by simp
next
  case (Cons r rs)
  from Cons.prems(2) obtain c t where st: "perform p fuel r s = Some (c, t)"
    and rest: "requests p fuel rs t = Some s'"
    by (auto split: option.splits)
  from Cons.IH [OF perform_distinct [OF Cons.prems(1) st] rest] show ?case .
qed

lemma reachable_distinct:
  "requests p fuel rs createCounterStore = Some s \<Longrightarrow> distinct (live (listeners s))"
  using requests_distinct [of createCounterStore p fuel rs s]
  by (simp add: createCounterStore_def)

subsection \<open>Callbacks that subscribe and unsubscribe during the pass\<close>

lemma distinct_split:
  assumes "distinct (live (xs @ Some a # ys))"
  shows "Some a \<notin> set xs" and "Some a \<notin> set ys"
  using assms by (simp_all add: live_append set_live)

text \<open>
  C3, as the code has it. \<open>forEach\<close> walks the set itself, not a copy. Both parts
  are about a pass in which one registered callback A changes the set, by one call,
  and every other callback only returns (a call recorder); the set holds every
  callback once, as it does in every store (\<open>reachable_distinct\<close>). When the body of A is one
  call of \<open>subscribe\<close> with a callback B that is not registered, the update returns
  and B is called in the same pass, once, after all the callbacks that were registered
  when the pass began. When the body of A is one call of the unsubscribe handle of a
  callback B that is registered after A, so that the pass has not reached it, the
  update returns and has called every registered callback but B; B is not called in
  this pass, and in no later request of a sequence in which nobody subscribes B again,
  and such a sequence comes to its end, given the fuel. The claim as stated fails on
  both counts: with 1 and 2 registered, 1 subscribing 3 makes the pass call 1, 2, 3,
  and 1 unsubscribing 2 makes the pass call 1 only.
\<close>

theorem listener_set_is_walked_live:
  "(distinct (live (listeners s)) \<and> listeners s = xs @ Some a # ys \<and> Some b \<notin> set (listeners s) \<and>
    p a = [Subscribe b] \<and> (\<forall>l. l \<noteq> a \<longrightarrow> p l = []) \<and> Suc (length (listeners s)) < fuel \<longrightarrow>
      update p fuel u s =
        Some (Returned, s\<lparr>listeners := listeners s @ [Some b],
                            calls := calls s @ live (listeners s) @ [b],
                            count := mutator u (count s)\<rparr>))
   \<and> (distinct (live (listeners s)) \<and> listeners s = xs @ Some a # ys \<and> Some b \<in> set ys \<and>
      p a = [Unsubscribe b] \<and> (\<forall>l. l \<noteq> a \<longrightarrow> p l = []) \<and> length (listeners s) < fuel \<longrightarrow>
        update p fuel u s =
          Some (Returned, s\<lparr>listeners := set_delete b (listeners s),
                              calls := calls s @ removeAll b (live (listeners s)),
                              count := mutator u (count s)\<rparr>)
        \<and> (Sub b \<notin> set rs \<and>
             requests p fuel rs (s\<lparr>listeners := set_delete b (listeners s),
                                     calls := calls s @ removeAll b (live (listeners s)),
                                     count := mutator u (count s)\<rparr>) = Some s' \<longrightarrow>
               count_list (calls s') b = count_list (calls s) b)
        \<and> (length (listeners s) + length rs < fuel \<longrightarrow>
             (\<exists>s'. requests p fuel rs (s\<lparr>listeners := set_delete b (listeners s),
                                     calls := calls s @ removeAll b (live (listeners s)),
                                     count := mutator u (count s)\<rparr>) = Some s')))"
proof (intro conjI impI)
  assume h: "distinct (live (listeners s)) \<and> listeners s = xs @ Some a # ys \<and> Some b \<in> set ys \<and>
      p a = [Unsubscribe b] \<and> (\<forall>l. l \<noteq> a \<longrightarrow> p l = []) \<and> length (listeners s) < fuel"
  assume fu: "length (listeners s) + length rs < fuel"
  from h have pa: "p a = [Unsubscribe b]" and others: "\<forall>l. l \<noteq> a \<longrightarrow> p l = []" by blast+
  have nosub: "\<forall>x y. Subscribe y \<notin> set (p x)"
  proof (intro allI)
    fix x y show "Subscribe y \<notin> set (p x)" using pa others by (cases "x = a") simp_all
  qed
  show "\<exists>s'. requests p fuel rs (s\<lparr>listeners := set_delete b (listeners s),
                                     calls := calls s @ removeAll b (live (listeners s)),
                                     count := mutator u (count s)\<rparr>) = Some s'"
    by (rule requests_terminate [OF nosub]) (use fu in \<open>simp add: length_set_delete\<close>)
next
  assume h: "distinct (live (listeners s)) \<and> listeners s = xs @ Some a # ys \<and> Some b \<notin> set (listeners s) \<and>
    p a = [Subscribe b] \<and> (\<forall>l. l \<noteq> a \<longrightarrow> p l = []) \<and> Suc (length (listeners s)) < fuel"
  then have hd: "distinct (live (listeners s))" and ls: "listeners s = xs @ Some a # ys"
    and nb: "Some b \<notin> set (listeners s)" and pa: "p a = [Subscribe b]"
    and others: "\<forall>l. l \<noteq> a \<longrightarrow> p l = []" and fu: "Suc (length (listeners s)) < fuel"
    by blast+
  have d: "distinct (live (xs @ Some a # ys))" using hd ls by simp
  have axs: "Some a \<notin> set xs" by (rule distinct_split(1) [OF d])
  have ays: "Some a \<notin> set ys" by (rule distinct_split(2) [OF d])
  have recx: "\<forall>l. Some l \<in> set xs \<longrightarrow> p l = []" using others axs by auto
  have ba: "b \<noteq> a" using nb ls by auto
  let ?t = "s\<lparr>count := mutator u (count s), calls := calls s @ live xs\<rparr>"
  let ?t' = "s\<lparr>count := mutator u (count s), calls := calls s @ live xs @ [a],
               listeners := listeners s @ [Some b]\<rparr>"
  have inv: "invoke p a ?t = (Returned, ?t')"
    using pa nb by (simp add: invoke_def subscribe_def set_add_def)
  have dr: "drop (Suc (length xs)) (listeners ?t') = ys @ [Some b]" using ls by simp
  have rec: "\<forall>l. Some l \<in> set (drop (Suc (length xs)) (listeners ?t')) \<longrightarrow> p l = []"
    unfolding dr using others ays ba by auto
  have fuel: "length (listeners ?t') - Suc (length xs) < fuel - Suc (length xs)"
    using fu ls by simp
  have pass: "forEach p (fuel - Suc (length xs)) (Suc (length xs)) ?t'
        = Some (Returned, ?t'\<lparr>calls := calls ?t' @ live (drop (Suc (length xs)) (listeners ?t'))\<rparr>)"
    using rec fuel by (rule forEach_recorders)
  have lx: "length xs < fuel" using fu ls by simp
  have "update p fuel u s = forEach p (fuel - Suc (length xs)) (Suc (length xs)) ?t'"
    using update_split [OF ls recx lx, of u] inv by simp
  also have "\<dots> = Some (Returned, s\<lparr>listeners := listeners s @ [Some b],
                            calls := calls s @ live (listeners s) @ [b],
                            count := mutator u (count s)\<rparr>)"
    unfolding pass dr using ls by (simp add: live_append)
  finally show "update p fuel u s =
        Some (Returned, s\<lparr>listeners := listeners s @ [Some b],
                            calls := calls s @ live (listeners s) @ [b],
                            count := mutator u (count s)\<rparr>)" .
next
  assume h: "distinct (live (listeners s)) \<and> listeners s = xs @ Some a # ys \<and> Some b \<in> set ys \<and>
      p a = [Unsubscribe b] \<and> (\<forall>l. l \<noteq> a \<longrightarrow> p l = []) \<and> length (listeners s) < fuel"
  then have hd: "distinct (live (listeners s))" and ls: "listeners s = xs @ Some a # ys"
    and bys: "Some b \<in> set ys" and pa: "p a = [Unsubscribe b]"
    and others: "\<forall>l. l \<noteq> a \<longrightarrow> p l = []" and fu: "length (listeners s) < fuel"
    by blast+
  have d: "distinct (live (xs @ Some a # ys))" using hd ls by simp
  have axs: "Some a \<notin> set xs" by (rule distinct_split(1) [OF d])
  have ays: "Some a \<notin> set ys" by (rule distinct_split(2) [OF d])
  have recx: "\<forall>l. Some l \<in> set xs \<longrightarrow> p l = []" using others axs by auto
  have ba: "b \<noteq> a" using bys ays by auto
  have bxs: "Some b \<notin> set xs"
    using d bys by (auto simp add: live_append set_live)
  let ?t = "s\<lparr>count := mutator u (count s), calls := calls s @ live xs\<rparr>"
  let ?t' = "s\<lparr>count := mutator u (count s), calls := calls s @ live xs @ [a],
               listeners := set_delete b (listeners s)\<rparr>"
  have inv: "invoke p a ?t = (Returned, ?t')"
    using pa by (simp add: invoke_def unsubscribe_def)
  have "set_delete b (xs @ Some a # ys) = set_delete b xs @ Some a # set_delete b ys"
    using ba by (simp add: set_delete_def)
  then have del: "set_delete b (listeners s) = xs @ Some a # set_delete b ys"
    using ls set_delete_absent [OF bxs] by simp
  have dr: "drop (Suc (length xs)) (listeners ?t') = set_delete b ys" using del by simp
  have rec: "\<forall>l. Some l \<in> set (drop (Suc (length xs)) (listeners ?t')) \<longrightarrow> p l = []"
    unfolding dr using others ays by (auto simp add: set_delete_def)
  have fuel: "length (listeners ?t') - Suc (length xs) < fuel - Suc (length xs)"
    using fu ls by (simp add: length_set_delete)
  have pass: "forEach p (fuel - Suc (length xs)) (Suc (length xs)) ?t'
        = Some (Returned, ?t'\<lparr>calls := calls ?t' @ live (drop (Suc (length xs)) (listeners ?t'))\<rparr>)"
    using rec fuel by (rule forEach_recorders)
  have "live (set_delete b (listeners s)) = live xs @ a # live (set_delete b ys)"
    unfolding del by (simp add: live_append)
  then have lv: "removeAll b (live (listeners s)) = live xs @ a # live (set_delete b ys)"
    by (simp add: live_set_delete)
  have lx: "length xs < fuel" using fu ls by simp
  have "update p fuel u s = forEach p (fuel - Suc (length xs)) (Suc (length xs)) ?t'"
    using update_split [OF ls recx lx, of u] inv by simp
  also have "\<dots> = Some (Returned, s\<lparr>listeners := set_delete b (listeners s),
                              calls := calls s @ removeAll b (live (listeners s)),
                              count := mutator u (count s)\<rparr>)"
    unfolding pass dr lv by simp
  finally show "update p fuel u s =
          Some (Returned, s\<lparr>listeners := set_delete b (listeners s),
                              calls := calls s @ removeAll b (live (listeners s)),
                              count := mutator u (count s)\<rparr>)" .
next
  assume h: "distinct (live (listeners s)) \<and> listeners s = xs @ Some a # ys \<and> Some b \<in> set ys \<and>
      p a = [Unsubscribe b] \<and> (\<forall>l. l \<noteq> a \<longrightarrow> p l = []) \<and> length (listeners s) < fuel"
  assume r: "Sub b \<notin> set rs \<and>
             requests p fuel rs (s\<lparr>listeners := set_delete b (listeners s),
                                     calls := calls s @ removeAll b (live (listeners s)),
                                     count := mutator u (count s)\<rparr>) = Some s'"
  let ?t = "s\<lparr>listeners := set_delete b (listeners s),
             calls := calls s @ removeAll b (live (listeners s)),
             count := mutator u (count s)\<rparr>"
  from h have pa: "p a = [Unsubscribe b]" and others: "\<forall>l. l \<noteq> a \<longrightarrow> p l = []" by blast+
  have nosub: "\<forall>x. Subscribe b \<notin> set (p x)"
  proof
    fix x show "Subscribe b \<notin> set (p x)" using pa others by (cases "x = a") simp_all
  qed
  from r have r1: "Sub b \<notin> set rs" and r2: "requests p fuel rs ?t = Some s'" by blast+
  have "Some b \<notin> set (listeners ?t)" by (simp add: set_delete_removes)
  from requests_absent [OF nosub r1 this r2]
  have "count_list (calls s') b = count_list (calls ?t) b" .
  then show "count_list (calls s') b = count_list (calls s) b"
    by (simp add: count_list_removeAll)
qed


theorem listener_set_is_walked_live_witness:
  "update (only 1 [Subscribe 3]) 4 Increment \<lparr>listeners = [Some 1, Some 2], calls = [], count = 0\<rparr>
     = Some (Returned, \<lparr>listeners = [Some 1, Some 2, Some 3], calls = [1, 2, 3], count = 1\<rparr>)
   \<and> update (only 1 [Unsubscribe 2]) 3 Increment \<lparr>listeners = [Some 1, Some 2], calls = [], count = 0\<rparr>
     = Some (Returned, \<lparr>listeners = [Some 1, None], calls = [1], count = 1\<rparr>)
   \<and> requests (only 1 [Unsubscribe 2]) 3 [Update Increment] \<lparr>listeners = [Some 1, None], calls = [1], count = 1\<rparr>
     = Some \<lparr>listeners = [Some 1, None], calls = [1, 1], count = 2\<rparr>
   \<and> count_list [1, 1] (2::nat) = count_list [] (2::nat)"
  using listener_set_is_walked_live
    [of "\<lparr>listeners = [Some 1, Some 2], calls = [], count = 0\<rparr>" "[]" 1 "[Some 2]" 3
        "only 1 [Subscribe 3]" 4 Increment "[]" "\<lparr>listeners = [], calls = [], count = 0\<rparr>"]
    listener_set_is_walked_live
    [of "\<lparr>listeners = [Some 1, Some 2], calls = [], count = 0\<rparr>" "[]" 1 "[Some 2]" 2
        "only 1 [Unsubscribe 2]" 3 Increment "[Update Increment]"
        "\<lparr>listeners = [Some 1, None], calls = [1, 1], count = 2\<rparr>"]
  by (simp add: only_def increment_def notifyListeners_def invoke_def subscribe_def unsubscribe_def
      set_add_def set_delete_def js_inc_def eval_nat_numeral)

theorem listener_set_is_walked_live_counterexample:
  "increment (only 1 [Subscribe 3]) 4 (subscribe 2 (subscribe 1 createCounterStore))
     = Some (Returned, \<lparr>listeners = [Some 1, Some 2, Some 3], calls = [1, 2, 3], count = 1\<rparr>)
   \<and> increment (only 1 [Unsubscribe 2]) 4 (subscribe 2 (subscribe 1 createCounterStore))
     = Some (Returned, \<lparr>listeners = [Some 1, None], calls = [1], count = 1\<rparr>)"
  by (simp add: only_def increment_def notifyListeners_def invoke_def subscribe_def unsubscribe_def
      createCounterStore_def set_add_def set_delete_def js_inc_def eval_nat_numeral)

subsection \<open>Call recorders: every registered callback is called once\<close>

text \<open>
  An update of the counter store whose registered callbacks are call recorders returns
  and has called each of them exactly once, and no other callback.
\<close>

lemma update_calls_each_listener_once:
  assumes "distinct (live (listeners s))" and "\<forall>l. Some l \<in> set (listeners s) \<longrightarrow> p l = []"
    and "length (listeners s) < fuel"
  shows "\<exists>s'. update p fuel u s = Some (Returned, s') \<and>
           (\<forall>l. count_list (calls s') l =
                 count_list (calls s) l + (if Some l \<in> set (listeners s) then 1 else 0))"
  using update_recorders [OF assms(2,3), of u] count_list_distinct [OF assms(1)]
  by (simp add: set_live)

text \<open>
  C5, as the code has it. The listeners are a \<open>Set\<close>: subscribing a callback that is
  registered changes nothing, so after two calls of \<open>subscribe\<close> with the same callback
  there is one registration. An update then calls the callback once, and after one
  call of the handle (both calls of \<open>subscribe\<close> return the same deletion) the callback
  is not registered and an update does not call it. The claim as stated fails: after
  subscribing callback 1 twice an update calls it once, and after one call of the
  handle an update calls it not at all.
\<close>

theorem same_callback_is_registered_once:
  "subscribe l (subscribe l s) = subscribe l s
   \<and> Some l \<notin> set (listeners (unsubscribe l (subscribe l (subscribe l s))))
   \<and> (distinct (live (listeners s)) \<and> p l = [] \<and> (\<forall>x. Some x \<in> set (listeners s) \<longrightarrow> p x = []) \<and>
      Suc (length (listeners s)) < fuel \<longrightarrow>
        (\<exists>s'. update p fuel u (subscribe l (subscribe l s)) = Some (Returned, s') \<and>
               count_list (calls s') l = Suc (count_list (calls s) l))
        \<and> (\<exists>s'. update p fuel u (unsubscribe l (subscribe l (subscribe l s))) = Some (Returned, s') \<and>
               count_list (calls s') l = count_list (calls s) l))"
proof (intro conjI impI)
  show twice: "subscribe l (subscribe l s) = subscribe l s"
    by (simp add: subscribe_def set_add_def)
  show gone: "Some l \<notin> set (listeners (unsubscribe l (subscribe l (subscribe l s))))"
    by (simp add: unsubscribe_def set_delete_removes)
  assume h: "distinct (live (listeners s)) \<and> p l = [] \<and> (\<forall>x. Some x \<in> set (listeners s) \<longrightarrow> p x = []) \<and>
      Suc (length (listeners s)) < fuel"
  then have hd: "distinct (live (listeners s))" and pl: "p l = []"
    and rec: "\<forall>x. Some x \<in> set (listeners s) \<longrightarrow> p x = []" and fu: "Suc (length (listeners s)) < fuel"
    by blast+
  let ?t = "subscribe l s"
  have td: "distinct (live (listeners ?t))"
    using hd by (simp add: subscribe_def distinct_live_add)
  have tin: "Some l \<in> set (listeners ?t)" by (simp add: subscribe_def set_add_def)
  have trec: "\<forall>x. Some x \<in> set (listeners ?t) \<longrightarrow> p x = []"
    using rec pl by (auto simp add: subscribe_def set_add_def split: if_splits)
  have tlen: "length (listeners ?t) < fuel"
    using fu length_set_add [of l "listeners s"] by (simp add: subscribe_def)
  have tcalls: "calls ?t = calls s" by (simp add: subscribe_def)
  from update_calls_each_listener_once [OF td trec tlen, of u] tin tcalls twice
  show "\<exists>s'. update p fuel u (subscribe l (subscribe l s)) = Some (Returned, s') \<and>
               count_list (calls s') l = Suc (count_list (calls s) l)"
    by auto
  let ?v = "unsubscribe l ?t"
  have vd: "distinct (live (listeners ?v))"
    using td by (simp add: unsubscribe_def distinct_live_delete)
  have vout: "Some l \<notin> set (listeners ?v)" by (simp add: unsubscribe_def set_delete_removes)
  have vrec: "\<forall>x. Some x \<in> set (listeners ?v) \<longrightarrow> p x = []"
    using trec by (auto simp add: unsubscribe_def set_delete_def split: if_splits)
  have vlen: "length (listeners ?v) < fuel"
    using tlen by (simp add: unsubscribe_def length_set_delete)
  have vcalls: "calls ?v = calls s" by (simp add: unsubscribe_def subscribe_def)
  from update_calls_each_listener_once [OF vd vrec vlen, of u] vout vcalls twice
  show "\<exists>s'. update p fuel u (unsubscribe l (subscribe l (subscribe l s))) = Some (Returned, s') \<and>
               count_list (calls s') l = count_list (calls s) l"
    by auto
qed

theorem same_callback_is_registered_once_witness:
  "update recorder 3 Increment (subscribe 1 (subscribe 1 \<lparr>listeners = [Some 2], calls = [1], count = 0\<rparr>))
     = Some (Returned, \<lparr>listeners = [Some 2, Some 1], calls = [1, 2, 1], count = 1\<rparr>)
   \<and> update recorder 3 Increment
        (unsubscribe 1 (subscribe 1 (subscribe 1 \<lparr>listeners = [Some 2], calls = [1], count = 0\<rparr>)))
     = Some (Returned, \<lparr>listeners = [Some 2, None], calls = [1, 2], count = 1\<rparr>)"
  using same_callback_is_registered_once
    [of 1 "\<lparr>listeners = [Some 2], calls = [1], count = 0\<rparr>" recorder 3 Increment]
  by (simp add: recorder_def increment_def notifyListeners_def invoke_def subscribe_def unsubscribe_def
      set_add_def set_delete_def js_inc_def eval_nat_numeral)

theorem same_callback_is_registered_once_counterexample:
  "requests recorder 3 [Sub 1, Sub 1, Update Increment] createCounterStore
     = Some \<lparr>listeners = [Some 1], calls = [1], count = 1\<rparr>
   \<and> requests recorder 3 [Sub 1, Sub 1, Unsub 1, Update Increment] createCounterStore
     = Some \<lparr>listeners = [None], calls = [], count = 1\<rparr>"
  by (simp add: recorder_def increment_def notifyListeners_def invoke_def subscribe_def unsubscribe_def
      createCounterStore_def set_add_def set_delete_def js_inc_def eval_nat_numeral)

section \<open>Properties of the online-status store\<close>

subsection \<open>Events\<close>

lemma handle_recorders:
  assumes "length (listeners s) < fuel"
  shows "handleOnline fuel s = Some (Returned, s\<lparr>isOnline := True, calls := calls s @ live (listeners s)\<rparr>)"
    and "handleOffline fuel s = Some (Returned, s\<lparr>isOnline := False, calls := calls s @ live (listeners s)\<rparr>)"
  using forEach_recorders [of 0 "s\<lparr>isOnline := True\<rparr>" recorder fuel]
    forEach_recorders [of 0 "s\<lparr>isOnline := False\<rparr>" recorder fuel] assms
  by (simp_all add: handleOnline_def handleOffline_def recorder_def)

lemma dispatch_handlers:
  assumes body: "\<And>t. listeners t = listeners s \<Longrightarrow>
      body t = Some (Returned, t\<lparr>isOnline := v, calls := calls t @ live (listeners t)\<rparr>)"
  shows "listeners t = listeners s \<Longrightarrow>
         \<exists>s'. dispatch body hs t = Some s' \<and>
           calls s' = calls t @ concat (replicate (length hs) (live (listeners s))) \<and>
           isOnline s' = (if hs = [] then isOnline t else v) \<and>
           listeners s' = listeners s"
proof (induction hs arbitrary: t)
  case Nil
  then show ?case by simp
next
  case (Cons h hs)
  let ?t' = "t\<lparr>isOnline := v, calls := calls t @ live (listeners t)\<rparr>"
  have b: "body t = Some (Returned, ?t')" using body [OF Cons.prems] .
  have "listeners ?t' = listeners s" using Cons.prems by simp
  from Cons.IH [OF this] obtain s' where d: "dispatch body hs ?t' = Some s'"
    and c: "calls s' = calls ?t' @ concat (replicate (length hs) (live (listeners s)))"
    and o: "isOnline s' = (if hs = [] then isOnline ?t' else v)"
    and l: "listeners s' = listeners s" by blast
  have "dispatch body (h # hs) t = Some s'" using b d by simp
  moreover have "calls s' = calls t @ concat (replicate (length (h # hs)) (live (listeners s)))"
    using c Cons.prems by simp
  moreover have "isOnline s' = v" using o by simp
  ultimately show ?case using l by simp
qed

lemma fire_calls:
  assumes "length (listeners s) < fuel"
  shows "\<exists>s'. fire fuel e s = Some s' \<and>
           calls s' = calls s @ concat (replicate (length (handlers e s)) (live (listeners s))) \<and>
           isOnline s' = (if handlers e s = [] then isOnline s else e = Online) \<and>
           listeners s' = listeners s"
proof (cases e)
  case Online
  have "\<And>t. listeners t = listeners s \<Longrightarrow>
      handleOnline fuel t = Some (Returned, t\<lparr>isOnline := True, calls := calls t @ live (listeners t)\<rparr>)"
    using handle_recorders(1) assms by simp
  from dispatch_handlers [of s "handleOnline fuel" True s "onlineHandlers s", OF this]
  show ?thesis using Online by auto
next
  case Offline
  have "\<And>t. listeners t = listeners s \<Longrightarrow>
      handleOffline fuel t = Some (Returned, t\<lparr>isOnline := False, calls := calls t @ live (listeners t)\<rparr>)"
    using handle_recorders(2) assms by simp
  from dispatch_handlers [of s "handleOffline fuel" False s "offlineHandlers s", OF this]
  show ?thesis using Offline by auto
qed

lemma count_list_concat_replicate:
  "count_list (concat (replicate n xs)) x = n * count_list xs x"
  by (induction n) simp_all


subsection \<open>Subscriptions\<close>

lemma online_subscribe_window:
  assumes "hasWindow s" and "\<forall>h\<in>set (onlineHandlers s). h < nextHandler s"
    and "\<forall>h\<in>set (offlineHandlers s). h < nextHandler s"
  shows "fst (online_subscribe l s) = Handle l (Some (nextHandler s))"
    and "listeners (snd (online_subscribe l s)) = set_add l (listeners s)"
    and "calls (snd (online_subscribe l s)) = calls s"
    and "isOnline (snd (online_subscribe l s)) = isOnline s"
    and "hasWindow (snd (online_subscribe l s))"
    and "onlineHandlers (snd (online_subscribe l s)) = onlineHandlers s @ [nextHandler s]"
    and "offlineHandlers (snd (online_subscribe l s)) = offlineHandlers s @ [nextHandler s]"
    and "nextHandler (snd (online_subscribe l s)) = Suc (nextHandler s)"
  using assms by (auto simp add: online_subscribe_def addEventListener_def Let_def)

lemma subscribe_all_window:
  "hasWindow s \<Longrightarrow> \<forall>h\<in>set (onlineHandlers s). h < nextHandler s \<Longrightarrow>
   \<forall>h\<in>set (offlineHandlers s). h < nextHandler s \<Longrightarrow>
   fst (subscribe_all ls s) =
     map2 (\<lambda>l h. Handle l (Some h)) ls [nextHandler s..<nextHandler s + length ls]
   \<and> listeners (snd (subscribe_all ls s)) = foldl (\<lambda>es l. set_add l es) (listeners s) ls
   \<and> calls (snd (subscribe_all ls s)) = calls s
   \<and> isOnline (snd (subscribe_all ls s)) = isOnline s
   \<and> onlineHandlers (snd (subscribe_all ls s)) =
       onlineHandlers s @ [nextHandler s..<nextHandler s + length ls]
   \<and> offlineHandlers (snd (subscribe_all ls s)) =
       offlineHandlers s @ [nextHandler s..<nextHandler s + length ls]"
proof (induction ls arbitrary: s)
  case Nil
  then show ?case by simp
next
  case (Cons l ls)
  let ?n = "nextHandler s"
  let ?s1 = "snd (online_subscribe l s)"
  note sub = online_subscribe_window [OF Cons.prems, of l]
  have w: "hasWindow ?s1" by (rule sub(5))
  have on: "\<forall>h\<in>set (onlineHandlers ?s1). h < nextHandler ?s1"
    using sub(6,8) Cons.prems(2) by (auto simp add: less_Suc_eq)
  have off: "\<forall>h\<in>set (offlineHandlers ?s1). h < nextHandler ?s1"
    using sub(7,8) Cons.prems(3) by (auto simp add: less_Suc_eq)
  note ih = Cons.IH [OF w on off]
  have "[?n..<?n + Suc (length ls)] = ?n # [Suc ?n..<?n + Suc (length ls)]"
    by (rule upt_conv_Cons) simp
  then have upt: "[?n..<?n + length (l # ls)] = ?n # [Suc ?n..<Suc ?n + length ls]"
    by (simp del: upt_Suc)
  have unfold: "subscribe_all (l # ls) s =
      (fst (online_subscribe l s) # fst (subscribe_all ls ?s1), snd (subscribe_all ls ?s1))"
    by (simp add: split_beta)
  show ?case
    unfolding unfold upt using ih sub by simp
qed

lemma foldl_set_add_live:
  "distinct (live es) \<Longrightarrow>
   distinct (live (foldl (\<lambda>es l. set_add l es) es ls))
   \<and> set (live (foldl (\<lambda>es l. set_add l es) es ls)) = set (live es) \<union> set ls
   \<and> length (foldl (\<lambda>es l. set_add l es) es ls) \<le> length es + length ls"
proof (induction ls arbitrary: es)
  case Nil
  then show ?case by simp
next
  case (Cons l ls)
  have d: "distinct (live (set_add l es))" using Cons.prems by (rule distinct_live_add)
  have s: "set (live (set_add l es)) = insert l (set (live es))"
    by (auto simp add: live_set_add)
  from Cons.IH [OF d] s length_set_add [of l es] show ?case by auto
qed


lemma subscribe_all_new_store:
  assumes "subscribe_all ls (createOnlineStore True b) = (hs, s)"
  shows "hs = map2 (\<lambda>l h. Handle l (Some h)) ls [0..<length ls]"
    and "handlers e s = [0..<length ls]"
    and "calls s = []"
    and "distinct (live (listeners s))"
    and "set (live (listeners s)) = set ls"
    and "length (listeners s) \<le> length ls"
proof -
  let ?s0 = "createOnlineStore True b"
  have s0: "hasWindow ?s0" "onlineHandlers ?s0 = []" "offlineHandlers ?s0 = []"
    "nextHandler ?s0 = 0" "listeners ?s0 = []" "calls ?s0 = []"
    by (simp_all add: createOnlineStore_def)
  have "hasWindow ?s0" and "\<forall>h\<in>set (onlineHandlers ?s0). h < nextHandler ?s0"
    and "\<forall>h\<in>set (offlineHandlers ?s0). h < nextHandler ?s0"
    using s0 by simp_all
  from subscribe_all_window [OF this, of ls] assms s0
  have f: "hs = map2 (\<lambda>l h. Handle l (Some h)) ls [0..<length ls]"
    and l: "listeners s = foldl (\<lambda>es l. set_add l es) [] ls"
    and c: "calls s = []"
    and on: "onlineHandlers s = [0..<length ls]"
    and off: "offlineHandlers s = [0..<length ls]"
    by simp_all
  show "hs = map2 (\<lambda>l h. Handle l (Some h)) ls [0..<length ls]" by (rule f)
  show "handlers e s = [0..<length ls]" using on off by (cases e) simp_all
  show "calls s = []" by (rule c)
  have "distinct (live [])" by simp
  from foldl_set_add_live [OF this, of ls] l
  show "distinct (live (listeners s))" and "set (live (listeners s)) = set ls"
    and "length (listeners s) \<le> length ls"
    by simp_all
qed

lemma remove1_upt: "k < n \<Longrightarrow> remove1 k [0..<n] = [0..<k] @ [Suc k..<n]"
proof -
  assume k: "k < n"
  then have "[0..<n] = [0..<k] @ k # [Suc k..<n]"
    using upt_add_eq_append [of 0 k "n - k"] upt_conv_Cons [of k n] by simp
  then show ?thesis by (simp add: remove1_append)
qed

text \<open>
  C10. In a browser (\<open>window\<close> exists), N calls of \<open>subscribe\<close> on a new online-status
  store leave N handlers registered for each of the two events, one pair for each call,
  and every handler walks the whole listener set: one \<open>online\<close> or \<open>offline\<close> event calls
  each subscribed callback N times. Calling the handle of the k-th call removes the
  k-th handler pair only; the other N - 1 pairs stay registered, and an event then calls
  each of the other callbacks N - 1 times.
\<close>

theorem each_subscription_installs_its_own_handlers:
  "(subscribe_all ls (createOnlineStore True b) = (hs, s) \<and> length ls < fuel \<longrightarrow>
      handlers e s = [0..<length ls]
      \<and> (\<exists>s'. fire fuel e s = Some s' \<and> (\<forall>l\<in>set ls. count_list (calls s') l = length ls)))
   \<and> (subscribe_all ls (createOnlineStore True b) = (hs, s) \<and> k < length ls \<and> length ls < fuel \<longrightarrow>
      handlers e (online_unsubscribe (hs ! k) s) = [0..<k] @ [Suc k..<length ls]
      \<and> (\<exists>s'. fire fuel e (online_unsubscribe (hs ! k) s) = Some s' \<and>
            (\<forall>l\<in>set ls. l \<noteq> ls ! k \<longrightarrow> count_list (calls s') l = length ls - 1)))"
proof (intro conjI impI)
  assume h: "subscribe_all ls (createOnlineStore True b) = (hs, s) \<and> length ls < fuel"
  then have sub: "subscribe_all ls (createOnlineStore True b) = (hs, s)" and fu: "length ls < fuel"
    by blast+
  note st = subscribe_all_new_store [OF sub]
  show "handlers e s = [0..<length ls]" by (rule st(2))
  have "length (listeners s) < fuel" using st(6) fu by simp
  from fire_calls [OF this, of e] obtain s' where f: "fire fuel e s = Some s'"
    and c: "calls s' = calls s @ concat (replicate (length (handlers e s)) (live (listeners s)))"
    by blast
  have "\<forall>l\<in>set ls. count_list (calls s') l = length ls"
    using c st(2) [of e] st(3) st(5) count_list_distinct [OF st(4)]
    by (simp add: count_list_concat_replicate)
  then show "\<exists>s'. fire fuel e s = Some s' \<and> (\<forall>l\<in>set ls. count_list (calls s') l = length ls)"
    using f by blast
next
  assume h: "subscribe_all ls (createOnlineStore True b) = (hs, s) \<and> k < length ls \<and> length ls < fuel"
  then have sub: "subscribe_all ls (createOnlineStore True b) = (hs, s)" and k: "k < length ls"
    and fu: "length ls < fuel"
    by blast+
  note st = subscribe_all_new_store [OF sub]
  have hk: "hs ! k = Handle (ls ! k) (Some k)" using st(1) k by simp
  let ?t = "online_unsubscribe (hs ! k) s"
  have "handlers e ?t = remove1 k (handlers e s)"
    unfolding hk by (cases e) (simp_all add: removeEventListener_def)
  then have ht: "handlers e ?t = [0..<k] @ [Suc k..<length ls]"
    using st(2) [of e] remove1_upt [OF k] by simp
  then show "handlers e ?t = [0..<k] @ [Suc k..<length ls]" .
  have n: "length (handlers e ?t) = length ls - 1" using ht k by simp
  have lt: "listeners ?t = set_delete (ls ! k) (listeners s)" unfolding hk by simp
  have ct: "calls ?t = []" unfolding hk using st(3) by simp
  have dt: "distinct (live (listeners ?t))"
    unfolding lt using st(4) by (rule distinct_live_delete)
  have mt: "set (live (listeners ?t)) = set ls - {ls ! k}"
    unfolding lt using st(5) by (simp add: live_set_delete)
  have "length (listeners ?t) < fuel"
    unfolding lt using st(6) fu by (simp add: length_set_delete)
  from fire_calls [OF this, of e] obtain s' where f: "fire fuel e ?t = Some s'"
    and c: "calls s' = calls ?t @ concat (replicate (length (handlers e ?t)) (live (listeners ?t)))"
    by blast
  have "\<forall>l\<in>set ls. l \<noteq> ls ! k \<longrightarrow> count_list (calls s') l = length ls - 1"
    using c ct n mt count_list_distinct [OF dt]
    by (simp add: count_list_concat_replicate)
  then show "\<exists>s'. fire fuel e ?t = Some s' \<and>
            (\<forall>l\<in>set ls. l \<noteq> ls ! k \<longrightarrow> count_list (calls s') l = length ls - 1)"
    using f by blast
qed

theorem each_subscription_installs_its_own_handlers_witness:
  "subscribe_all [5, 6, 7] (createOnlineStore True False)
     = ([Handle 5 (Some 0), Handle 6 (Some 1), Handle 7 (Some 2)],
        \<lparr>listeners = [Some 5, Some 6, Some 7], calls = [], isOnline = False, hasWindow = True,
           onlineHandlers = [0, 1, 2], offlineHandlers = [0, 1, 2], nextHandler = 3\<rparr>)
   \<and> fire 4 Online \<lparr>listeners = [Some 5, Some 6, Some 7], calls = [], isOnline = False, hasWindow = True,
           onlineHandlers = [0, 1, 2], offlineHandlers = [0, 1, 2], nextHandler = 3\<rparr>
     = Some \<lparr>listeners = [Some 5, Some 6, Some 7], calls = [5, 6, 7, 5, 6, 7, 5, 6, 7], isOnline = True,
           hasWindow = True, onlineHandlers = [0, 1, 2], offlineHandlers = [0, 1, 2], nextHandler = 3\<rparr>
   \<and> fire 4 Online (online_unsubscribe (Handle 6 (Some 1))
         \<lparr>listeners = [Some 5, Some 6, Some 7], calls = [], isOnline = False, hasWindow = True,
           onlineHandlers = [0, 1, 2], offlineHandlers = [0, 1, 2], nextHandler = 3\<rparr>)
     = Some \<lparr>listeners = [Some 5, None, Some 7], calls = [5, 7, 5, 7], isOnline = True,
           hasWindow = True, onlineHandlers = [0, 2], offlineHandlers = [0, 2], nextHandler = 3\<rparr>"
  using each_subscription_installs_its_own_handlers
    [of "[5, 6, 7]" False "[Handle 5 (Some 0), Handle 6 (Some 1), Handle 7 (Some 2)]"
        "\<lparr>listeners = [Some 5, Some 6, Some 7], calls = [], isOnline = False, hasWindow = True,
           onlineHandlers = [0, 1, 2], offlineHandlers = [0, 1, 2], nextHandler = 3\<rparr>"
        4 Online 1]
  by (simp add: createOnlineStore_def online_subscribe_def addEventListener_def removeEventListener_def
      set_add_def set_delete_def handleOnline_def recorder_def invoke_def eval_nat_numeral)

text \<open>
  C2. For the counter store the claim holds (\<open>update_calls_each_listener_once\<close>). The
  online-status store breaks it: after two calls of \<open>subscribe\<close>, with the callbacks 1
  and 2, \<open>window\<close> has two \<open>online\<close> handlers, each of which walks the whole set, so one
  \<open>online\<close> event calls 1 and 2 twice each.
\<close>

theorem online_event_calls_each_listener_twice:
  "fire 3 Online (snd (subscribe_all [1, 2] (createOnlineStore True False)))
     = Some \<lparr>listeners = [Some 1, Some 2], calls = [1, 2, 1, 2], isOnline = True,
           hasWindow = True, onlineHandlers = [0, 1], offlineHandlers = [0, 1], nextHandler = 2\<rparr>"
  by (simp add: createOnlineStore_def online_subscribe_def addEventListener_def
      set_add_def handleOnline_def recorder_def invoke_def eval_nat_numeral)

end
